theory Spec2Isabelle
  imports Main "HOL-Library.Word"
begin

unbundle bit_operations_syntax

section \<open>Data model of \<open>dmx_server.py\<close>\<close>

text \<open>
  The server keeps one \<open>DMXController\<close> object. Its attributes are the fields of the
  record \<open>controller\<close>. Python integers are unbounded, so channel numbers and channel
  values are \<open>int\<close>; the bytes of a \<open>bytearray\<close> are \<open>8 word\<close>.

  A \<open>serial.Serial\<close> object is the record \<open>serial_handle\<close>: the device it was opened
  on, the baud rate, and whether it is still open (\<open>close()\<close> clears that flag and
  leaves the object in place).

  \<open>threads_started\<close> is not a Python attribute: it counts the \<open>Thread.start()\<close> calls
  issued for \<open>_update_loop\<close>, so that the number of transmit loops ever spawned can
  be read off the state. \<open>update_thread\<close> holds the index of the thread object stored
  by \<open>start_updates\<close>.
\<close>

datatype py_error = IndexError | ValueError | SerialException

type_synonym byte = "8 word"

record serial_handle =
  port :: string
  baudrate :: nat
  is_open :: bool

record controller =
  dmx_data :: "int list"
  serial_port :: "serial_handle option"
  running :: bool
  update_thread :: "nat option"
  threads_started :: nat

text \<open>The state after the four assignments that open \<open>__init__\<close>.\<close>

definition fresh :: controller where
  "fresh = \<lparr>dmx_data = replicate 512 0, serial_port = None, running = False,
            update_thread = None, threads_started = 0\<rparr>"

text \<open>The invariant the specification states for the universe buffer.\<close>

definition universe_inv :: "int list \<Rightarrow> bool" where
  "universe_inv u = (length u = 512 \<and> list_all (\<lambda>v. 0 \<le> v \<and> v \<le> 255) u)"

text \<open>The specification's \<open>clamp(value, 0, 255)\<close>, written as the case distinction it means.\<close>

definition clamp :: "int \<Rightarrow> int \<Rightarrow> int \<Rightarrow> int" where
  "clamp v lo hi = (if v < lo then lo else if hi < v then hi else v)"

section \<open>Universe store\<close>

text \<open>
  \<open>set_channel\<close>: the guard \<open>1 <= channel <= 512\<close>, then the item assignment
  \<open>self.dmx_data[channel - 1] = max(0, min(255, value))\<close>. A Python item assignment
  past the end of the list raises \<open>IndexError\<close>; that branch is written out.
\<close>

definition set_channel :: "int \<Rightarrow> int \<Rightarrow> controller \<Rightarrow> py_error + controller" where
  "set_channel channel val c =
     (if 1 \<le> channel \<and> channel \<le> 512 then
        (if nat (channel - 1) < length (dmx_data c)
         then Inr (c\<lparr>dmx_data := (dmx_data c)[nat (channel - 1) := max 0 (min 255 val)]\<rparr>)
         else Inl IndexError)
      else Inr c)"

text \<open>
  \<open>set_channels\<close>: \<open>for i, value in enumerate(values): self.set_channel(start_channel + i, value)\<close>.
  An exception of one iteration ends the loop.
\<close>

definition set_channels_step ::
  "int \<Rightarrow> nat \<times> int \<Rightarrow> py_error + controller \<Rightarrow> py_error + controller" where
  "set_channels_step start_channel iv r =
     (case r of Inl e \<Rightarrow> Inl e
      | Inr c \<Rightarrow> set_channel (start_channel + int (fst iv)) (snd iv) c)"

definition set_channels :: "int \<Rightarrow> int list \<Rightarrow> controller \<Rightarrow> py_error + controller" where
  "set_channels start_channel vals c =
     fold (set_channels_step start_channel) (enumerate 0 vals) (Inr c)"

text \<open>The \<open>/blackout\<close> route: one assignment of a new list, and the acknowledgement.\<close>

definition blackout :: "controller \<Rightarrow> controller \<times> string" where
  "blackout c = (c\<lparr>dmx_data := replicate 512 0\<rparr>, ''blackout'')"

section \<open>Packet encoder and transmission\<close>

text \<open>
  \<open>bytearray(ints)\<close> raises \<open>ValueError\<close> unless every item is in \<open>range(256)\<close>.
\<close>

definition bytearray :: "int list \<Rightarrow> py_error + byte list" where
  "bytearray xs =
     (if list_all (\<lambda>x. 0 \<le> x \<and> x < 256) xs then Inr (map word_of_int xs)
      else Inl ValueError)"

text \<open>
  The packet built inside the \<open>try\<close> block of \<open>send_dmx_packet\<close>. The appended
  values \<open>0x7E\<close>, \<open>0x06\<close>, \<open>length & 0xFF\<close>, \<open>(length >> 8) & 0xFF\<close> and \<open>0xE7\<close> are
  all in \<open>range(256)\<close>, so only the \<open>bytearray\<close> constructor can raise.
\<close>

definition build_packet :: "int list \<Rightarrow> py_error + byte list" where
  "build_packet data =
     (case bytearray (0x00 # data) of
        Inl e \<Rightarrow> Inl e
      | Inr dmx_packet \<Rightarrow>
          (let len = int (length dmx_packet) in
           Inr ([0x7E, 0x06]
                @ [word_of_int (len AND 0xFF), word_of_int (drop_bit 8 len AND 0xFF)]
                @ dmx_packet
                @ [0xE7])))"

text \<open>
  Whether \<open>self.serial_port.write(packet)\<close> returns or raises is decided by the
  hardware; it is a parameter of each call.
\<close>

datatype write_outcome = WriteOk | WriteRaises

text \<open>
  The \<open>try\<close> block: build the packet, hand it to \<open>write\<close>. The result is the packet
  handed to \<open>write\<close> (if the block got that far) and how the block ended.
\<close>

definition send_body :: "write_outcome \<Rightarrow> int list \<Rightarrow> byte list option \<times> (py_error + bool)" where
  "send_body w data =
     (case build_packet data of
        Inl e \<Rightarrow> (None, Inl e)
      | Inr packet \<Rightarrow>
          (case w of
             WriteOk \<Rightarrow> (Some packet, Inr True)
           | WriteRaises \<Rightarrow> (Some packet, Inl SerialException)))"

text \<open>
  \<open>send_dmx_packet\<close>: \<open>False\<close> without a port; otherwise the \<open>try\<close> block, with
  \<open>except Exception: return False\<close>. The result is the controller afterwards, the
  value returned, and the packet handed to \<open>write\<close>.
\<close>

definition send_dmx_packet ::
  "write_outcome \<Rightarrow> controller \<Rightarrow> controller \<times> bool \<times> byte list option" where
  "send_dmx_packet w c =
     (case serial_port c of
        None \<Rightarrow> (c, False, None)
      | Some h \<Rightarrow>
          (case send_body w (dmx_data c) of
             (sent, Inr b) \<Rightarrow> (c, b, sent)
           | (sent, Inl e) \<Rightarrow> (c, False, sent)))"

section \<open>Transmit scheduler\<close>

definition start_updates :: "controller \<Rightarrow> controller" where
  "start_updates c =
     (if running c then c
      else c\<lparr>running := True,
             update_thread := Some (threads_started c),
             threads_started := Suc (threads_started c)\<rparr>)"

text \<open>
  \<open>_update_loop\<close>: \<open>while self.running: self.send_dmx_packet(); time.sleep(1.0 / 44.0)\<close>.
  The loop may run forever, so it is driven by a schedule with one entry per tick: the
  outcome of that tick's \<open>write\<close>, and what the request threads do to the controller
  while the loop sleeps. The result is the controller when the loop leaves (or the
  schedule ends) and, per tick, the value \<open>send_dmx_packet\<close> returned and the packet
  it handed to \<open>write\<close>.
\<close>

fun update_loop ::
  "(write_outcome \<times> (controller \<Rightarrow> controller)) list \<Rightarrow> controller
     \<Rightarrow> controller \<times> (bool \<times> byte list option) list" where
  "update_loop [] c = (c, [])"
| "update_loop ((w, sleep) # ticks) c =
     (if running c then
        (case send_dmx_packet w c of
           (c1, r) \<Rightarrow>
             (case update_loop ticks (sleep c1) of
                (c2, rs) \<Rightarrow> (c2, r # rs)))
      else (c, []))"

text \<open>
  \<open>stop\<close>: clear the flag, join the thread (no effect on the attributes), close the
  port. \<open>self.serial_port\<close> itself is not reassigned.
\<close>

definition stop :: "controller \<Rightarrow> controller" where
  "stop c =
     (let c1 = c\<lparr>running := False\<rparr> in
      case serial_port c1 of
        None \<Rightarrow> c1
      | Some h \<Rightarrow> c1\<lparr>serial_port := Some (h\<lparr>is_open := False\<rparr>)\<rparr>)"

section \<open>Transport: connect and discovery\<close>

text \<open>
  \<open>serial.Serial(port=..., baudrate=..., ...)\<close>: whether a device can be opened is
  decided by the operating system; \<open>openable\<close> is that parameter.
\<close>

definition Serial :: "(string \<Rightarrow> bool) \<Rightarrow> string \<Rightarrow> nat \<Rightarrow> py_error + serial_handle" where
  "Serial openable p b =
     (if openable p then Inr \<lparr>port = p, baudrate = b, is_open = True\<rparr>
      else Inl SerialException)"

text \<open>
  \<open>connect\<close>: the whole body is inside \<open>try ... except Exception: return False\<close>, so
  the result is always a returned value (\<open>Inr\<close>), never a raised exception.
\<close>

definition connect ::
  "(string \<Rightarrow> bool) \<Rightarrow> string \<Rightarrow> nat \<Rightarrow> controller \<Rightarrow> py_error + controller \<times> bool" where
  "connect openable p b c =
     (case Serial openable p b of
        Inr h \<Rightarrow> Inr (start_updates (c\<lparr>serial_port := Some h\<rparr>), True)
      | Inl e \<Rightarrow> Inr (c, False))"

record port_info =
  device :: string
  description :: string

text \<open>\<open>str.lower()\<close> on ASCII text, and the substring test \<open>keyword in s\<close>.\<close>

definition lower_char :: "char \<Rightarrow> char" where
  "lower_char ch =
     (if 65 \<le> (of_char ch :: nat) \<and> (of_char ch :: nat) \<le> 90
      then char_of ((of_char ch :: nat) + 32) else ch)"

definition lower :: "string \<Rightarrow> string" where
  "lower s = map lower_char s"

fun contains :: "string \<Rightarrow> string \<Rightarrow> bool" where
  "contains kw [] = (kw = [])"
| "contains kw (ch # s) = (take (length kw) (ch # s) = kw \<or> contains kw s)"

definition dmx_keywords :: "string list" where
  "dmx_keywords = [''dmx'', ''enttec'', ''ftdi'', ''dmxking'', ''usb serial'']"

definition matches :: "port_info \<Rightarrow> bool" where
  "matches p = list_ex (\<lambda>keyword. contains keyword (lower (description p))) dmx_keywords"

text \<open>
  \<open>auto_connect\<close>: the loop over \<open>comports()\<close>. For a matching port the \<open>try\<close> block
  calls \<open>connect\<close> and then returns \<open>True\<close>, whatever \<open>connect\<close> returned; the
  \<open>except\<close> clause continues with the next port. The third component lists the
  devices \<open>connect\<close> was called on, in order.
\<close>

fun auto_connect ::
  "(string \<Rightarrow> bool) \<Rightarrow> port_info list \<Rightarrow> nat \<Rightarrow> controller
     \<Rightarrow> controller \<times> bool \<times> string list" where
  "auto_connect openable [] b c = (c, False, [])"
| "auto_connect openable (p # ports) b c =
     (if matches p then
        (case connect openable (device p) b c of
           Inr (c', connected) \<Rightarrow> (c', True, [device p])
         | Inl e \<Rightarrow>
             (case auto_connect openable ports b c of
                (c', r, tried) \<Rightarrow> (c', r, device p # tried)))
      else auto_connect openable ports b c)"

text \<open>
  \<open>__init__\<close>: \<open>if port:\<close> holds for a non-empty string; otherwise discovery runs.
  The return values of \<open>connect\<close> and \<open>auto_connect\<close> are dropped.
\<close>

definition init ::
  "(string \<Rightarrow> bool) \<Rightarrow> port_info list \<Rightarrow> string option \<Rightarrow> nat \<Rightarrow> controller" where
  "init openable ports p b =
     (case p of
        Some dev \<Rightarrow>
          (if dev \<noteq> [] then
             (case connect openable dev b fresh of Inr (c, r) \<Rightarrow> c | Inl e \<Rightarrow> fresh)
           else fst (auto_connect openable ports b fresh))
      | None \<Rightarrow> fst (auto_connect openable ports b fresh))"

section \<open>Request handlers\<close>

record update_request =
  startAddress :: "int option"
  channels :: "int list option"

record update_response =
  status :: string
  address :: int
  channels_updated :: nat

text \<open>
  \<open>update_dmx\<close>: \<open>data.get('startAddress', 1)\<close>, \<open>data.get('channels', [])\<close>, then
  \<open>dmx.set_channels\<close> and the JSON answer.
\<close>

definition update_dmx ::
  "update_request \<Rightarrow> controller \<Rightarrow> py_error + controller \<times> update_response" where
  "update_dmx data c =
     (let start_address = (case startAddress data of None \<Rightarrow> 1 | Some a \<Rightarrow> a);
          chans = (case channels data of None \<Rightarrow> [] | Some xs \<Rightarrow> xs)
      in case set_channels start_address chans c of
           Inl e \<Rightarrow> Inl e
         | Inr c' \<Rightarrow>
             Inr (c', \<lparr>status = ''ok'', address = start_address,
                       channels_updated = length chans\<rparr>))"

record status_response =
  st_connected :: bool
  st_port :: "string option"
  st_running :: bool

definition get_status :: "controller \<Rightarrow> status_response" where
  "get_status c =
     \<lparr>st_connected = (serial_port c \<noteq> None),
      st_port = (case serial_port c of Some h \<Rightarrow> Some (port h) | None \<Rightarrow> None),
      st_running = running c\<rparr>"

section \<open>Threads on the shared list object\<close>

text \<open>
  The request handlers and the transmit loop run in different threads
  (\<open>threading.Thread(target=self._update_loop)\<close>, \<open>app.run(..., threaded=True)\<close>) and there is
  no lock. What one thread can see of another's work depends on the list object behind
  \<open>dmx.dmx_data\<close>, so here the list objects live in a store and \<open>dmx_data\<close> is a reference.

  \<open>objs\<close> maps an address to the list object there, \<open>dmx_ref\<close> is the object the attribute
  \<open>dmx_data\<close> is bound to, \<open>next_addr\<close> is where the next new object goes.
\<close>

type_synonym addr = nat

record store =
  objs :: "addr \<Rightarrow> int list option"
  dmx_ref :: addr
  next_addr :: addr

text \<open>
  A thread is at one of these points.
  \<^item> \<open>BlackoutStart\<close>: before \<open>dmx.dmx_data = [0] * 512\<close>. Its first step evaluates
    \<open>[0] * 512\<close> to a new list object, which no other thread can reach;
    \<open>BlackoutBuilt a\<close>: that object is at \<open>a\<close>, and the next step is the assignment to
    the attribute.
  \<^item> \<open>TickStart\<close>: before \<open>[0x00] + self.dmx_data\<close> in \<open>send_dmx_packet\<close>. Its first step
    reads the attribute; \<open>TickCopying a buf\<close>: it holds the object at \<open>a\<close> and has copied
    the slots in \<open>buf\<close>. The copy goes one slot per step, so that other threads may run
    between any two slots; a copy done in one piece is the schedule that runs these
    steps back to back.
  \<^item> \<open>SetChannels start i vs\<close>: \<open>set_channels\<close> in a request thread, at loop index \<open>i\<close>
    with the values \<open>vs\<close> still to go. One step is one \<open>set_channel\<close> call, which assigns
    to an item of the object the attribute is bound to at that moment.
  \<^item> \<open>Finished r\<close>: done; for a tick, \<open>r\<close> is the copy of the universe it took.
\<close>

datatype thread =
    BlackoutStart
  | BlackoutBuilt addr
  | TickStart
  | TickCopying addr "int list"
  | SetChannels int nat "int list"
  | Finished "int list option"

text \<open>The store in which \<open>dmx_data\<close> is bound to a list object with contents \<open>u\<close>.\<close>

definition store_of :: "int list \<Rightarrow> store" where
  "store_of u = \<lparr>objs = [0 \<mapsto> u], dmx_ref = 0, next_addr = 1\<rparr>"

fun thread_step :: "store \<Rightarrow> thread \<Rightarrow> store \<times> thread" where
  "thread_step s BlackoutStart =
     (s\<lparr>objs := (objs s)(next_addr s \<mapsto> replicate 512 0), next_addr := Suc (next_addr s)\<rparr>,
      BlackoutBuilt (next_addr s))"
| "thread_step s (BlackoutBuilt a) = (s\<lparr>dmx_ref := a\<rparr>, Finished None)"
| "thread_step s TickStart = (s, TickCopying (dmx_ref s) [])"
| "thread_step s (TickCopying a buf) =
     (case objs s a of
        None \<Rightarrow> (s, Finished None)
      | Some xs \<Rightarrow>
          (if length buf < length xs then (s, TickCopying a (buf @ [xs ! length buf]))
           else (s, Finished (Some buf))))"
| "thread_step s (SetChannels start i []) = (s, Finished None)"
| "thread_step s (SetChannels start i (v # vs)) =
     (case objs s (dmx_ref s) of
        None \<Rightarrow> (s, Finished None)
      | Some xs \<Rightarrow>
          (case set_channel (start + int i) v (fresh\<lparr>dmx_data := xs\<rparr>) of
             Inl e \<Rightarrow> (s, Finished None)
           | Inr c' \<Rightarrow>
               (s\<lparr>objs := (objs s)(dmx_ref s \<mapsto> dmx_data c')\<rparr>, SetChannels start (Suc i) vs)))"
| "thread_step s (Finished r) = (s, Finished r)"

text \<open>
  A schedule names, step by step, the thread that runs next; every list of thread
  indices is a schedule.
\<close>

fun run :: "nat list \<Rightarrow> store \<times> thread list \<Rightarrow> store \<times> thread list" where
  "run [] st = st"
| "run (i # sched) (s, ths) =
     (if i < length ths then
        (case thread_step s (ths ! i) of (s', t') \<Rightarrow> run sched (s', ths[i := t']))
      else run sched (s, ths))"

text \<open>
  Invariants for the proofs about a blackout thread (index 0) next to a tick thread
  (index 1): \<open>copying\<close> says the tick's buffer is a prefix of the object it holds;
  \<open>racing\<close> holds from the start, \<open>settled\<close> once the blackout thread is done.
\<close>

definition copying :: "store \<Rightarrow> addr \<Rightarrow> int list \<Rightarrow> bool" where
  "copying s a buf =
     (case objs s a of None \<Rightarrow> False
      | Some xs \<Rightarrow> length buf \<le> length xs \<and> buf = take (length buf) xs)"

definition racing :: "int list \<Rightarrow> store \<times> thread list \<Rightarrow> bool" where
  "racing old st =
     (case st of (s, ths) \<Rightarrow>
        length ths = 2 \<and> objs s 0 = Some old
        \<and> (case ths ! 0 of
              BlackoutStart \<Rightarrow> dmx_ref s = 0 \<and> next_addr s = 1
            | BlackoutBuilt a \<Rightarrow> a = 1 \<and> dmx_ref s = 0 \<and> objs s 1 = Some (replicate 512 0)
            | Finished r \<Rightarrow> r = None \<and> dmx_ref s = 1 \<and> objs s 1 = Some (replicate 512 0)
            | _ \<Rightarrow> False)
        \<and> (case ths ! 1 of
              TickStart \<Rightarrow> True
            | TickCopying a buf \<Rightarrow>
                (a = 0 \<or> (a = 1 \<and> objs s 1 = Some (replicate 512 0))) \<and> copying s a buf
            | Finished r \<Rightarrow> r = Some old \<or> r = Some (replicate 512 0)
            | _ \<Rightarrow> False))"

definition settled :: "store \<times> thread list \<Rightarrow> bool" where
  "settled st =
     (case st of (s, ths) \<Rightarrow>
        length ths = 2 \<and> dmx_ref s = 1 \<and> objs s 1 = Some (replicate 512 0)
        \<and> ths ! 0 = Finished None
        \<and> (case ths ! 1 of
              TickStart \<Rightarrow> True
            | TickCopying a buf \<Rightarrow> a = 1 \<and> copying s a buf
            | Finished r \<Rightarrow> r = Some (replicate 512 0)
            | _ \<Rightarrow> False))"

section \<open>Universe store: single channel\<close>

lemma max_min_clamp: "max 0 (min 255 v) = clamp v 0 255"
  by (simp add: clamp_def)

lemma set_channel_cases:
  assumes "length (dmx_data c) = 512"
  shows "set_channel ch v c =
           Inr (if 1 \<le> ch \<and> ch \<le> 512
                then c\<lparr>dmx_data := (dmx_data c)[nat (ch - 1) := max 0 (min 255 v)]\<rparr> else c)"
  using assms by (auto simp add: set_channel_def)

lemma set_channel_out_of_range:
  assumes "ch < 1 \<or> 512 < ch"
  shows "set_channel ch v c = Inr c"
  using assms by (auto simp add: set_channel_def)

text \<open>
  C2. For a universe of 512 slots: a channel in \<open>[1, 512]\<close> is stored clamped to
  \<open>[0, 255]\<close> at index \<open>channel - 1\<close> and reads back as \<open>clamp(v, 0, 255)\<close>, with no
  error; a channel outside \<open>[1, 512]\<close> returns normally and leaves the whole
  controller, universe included, as it was.
\<close>

theorem set_channel_clamps_or_ignores:
  assumes "length (dmx_data c) = 512"
  shows "(1 \<le> ch \<and> ch \<le> 512 \<longrightarrow>
            (\<exists>c'. set_channel ch v c = Inr c'
                  \<and> dmx_data c' = (dmx_data c)[nat (ch - 1) := clamp v 0 255]
                  \<and> dmx_data c' ! nat (ch - 1) = clamp v 0 255))
       \<and> (ch < 1 \<or> 512 < ch \<longrightarrow> set_channel ch v c = Inr c)"
proof (intro conjI impI)
  assume r: "1 \<le> ch \<and> ch \<le> 512"
  then have "nat (ch - 1) < length (dmx_data c)" using assms by linarith
  then show "\<exists>c'. set_channel ch v c = Inr c'
                  \<and> dmx_data c' = (dmx_data c)[nat (ch - 1) := clamp v 0 255]
                  \<and> dmx_data c' ! nat (ch - 1) = clamp v 0 255"
    using r by (simp add: set_channel_cases [OF assms] max_min_clamp)
next
  assume "ch < 1 \<or> 512 < ch"
  then show "set_channel ch v c = Inr c" by (rule set_channel_out_of_range)
qed

theorem set_channel_clamps_or_ignores_witness:
  "length (dmx_data fresh) = 512
   \<and> (\<exists>c'. set_channel 7 300 fresh = Inr c' \<and> dmx_data c' ! 6 = 255)
   \<and> (\<exists>c'. set_channel 512 (- 4) fresh = Inr c' \<and> dmx_data c' ! 511 = 0)
   \<and> set_channel 513 9 fresh = Inr fresh
   \<and> set_channel 0 9 fresh = Inr fresh"
proof -
  have len: "length (dmx_data fresh) = 512" by (simp add: fresh_def)
  show ?thesis
    using len
      set_channel_clamps_or_ignores [OF len, of 7 300]
      set_channel_clamps_or_ignores [OF len, of 512 "- 4"]
      set_channel_clamps_or_ignores [OF len, of 513 9]
      set_channel_clamps_or_ignores [OF len, of 0 9]
    by (auto simp add: clamp_def)
qed

section \<open>Universe store: consecutive channels\<close>

lemma fold_set_channels:
  assumes "length (dmx_data c) = 512"
  shows "\<exists>u. fold (set_channels_step s) (enumerate n vs) (Inr c) = Inr (c\<lparr>dmx_data := u\<rparr>)
            \<and> length u = 512
            \<and> (\<forall>k<512. u ! k =
                 (if s + int n \<le> int k + 1 \<and> int k + 1 < s + int n + int (length vs)
                  then max 0 (min 255 (vs ! nat (int k + 1 - s - int n)))
                  else dmx_data c ! k))"
  using assms
proof (induction vs arbitrary: n c)
  case Nil
  show ?case
    by (rule exI [of _ "dmx_data c"]) (simp add: Nil)
next
  case (Cons v vs)
  define d1 where "d1 = (if 1 \<le> s + int n \<and> s + int n \<le> 512
                then (dmx_data c)[nat (s + int n - 1) := max 0 (min 255 v)] else dmx_data c)"
  define c1 where "c1 = c\<lparr>dmx_data := d1\<rparr>"
  have len1: "length (dmx_data c1) = 512"
    using Cons.prems by (simp add: c1_def d1_def)
  have step: "set_channels_step s (n, v) (Inr c) = Inr c1"
    using Cons.prems by (simp add: set_channels_step_def set_channel_cases c1_def d1_def)
  have d1_hit: "d1 ! k = max 0 (min 255 v)" if "k < 512" "int k + 1 = s + int n" for k
  proof -
    have "nat (s + int n - 1) = k" using that by linarith
    moreover have "1 \<le> s + int n \<and> s + int n \<le> 512" using that by linarith
    ultimately show ?thesis using Cons.prems that by (simp add: d1_def)
  qed
  have d1_miss: "d1 ! k = dmx_data c ! k" if "int k + 1 \<noteq> s + int n" for k
  proof (cases "1 \<le> s + int n \<and> s + int n \<le> 512")
    case True
    then have "nat (s + int n - 1) \<noteq> k" using that by linarith
    then show ?thesis using True by (simp add: d1_def)
  next
    case False
    then show ?thesis by (auto simp add: d1_def)
  qed
  from Cons.IH [OF len1, of "Suc n"] obtain u where
    u1: "fold (set_channels_step s) (enumerate (Suc n) vs) (Inr c1) = Inr (c1\<lparr>dmx_data := u\<rparr>)"
    and u2: "length u = 512"
    and u3: "\<And>k. k < 512 \<Longrightarrow> u ! k =
                 (if s + int (Suc n) \<le> int k + 1 \<and> int k + 1 < s + int (Suc n) + int (length vs)
                  then max 0 (min 255 (vs ! nat (int k + 1 - s - int (Suc n))))
                  else dmx_data c1 ! k)"
    by blast
  have eq: "c1\<lparr>dmx_data := u\<rparr> = c\<lparr>dmx_data := u\<rparr>" by (simp add: c1_def)
  have pt: "u ! k =
                 (if s + int n \<le> int k + 1 \<and> int k + 1 < s + int n + int (length (v # vs))
                  then max 0 (min 255 ((v # vs) ! nat (int k + 1 - s - int n)))
                  else dmx_data c ! k)" if k: "k < 512" for k
  proof -
    consider (hit) "int k + 1 = s + int n"
      | (later) "s + int n < int k + 1" "int k + 1 < s + int (Suc n) + int (length vs)"
      | (out) "int k + 1 < s + int n \<or> s + int (Suc n) + int (length vs) \<le> int k + 1"
      by linarith
    then show ?thesis
    proof cases
      case hit
      have "u ! k = dmx_data c1 ! k" using u3 [OF k] hit by simp
      also have "\<dots> = max 0 (min 255 v)" using d1_hit [OF k hit] by (simp add: c1_def)
      finally show ?thesis using hit by simp
    next
      case later
      have idx: "nat (int k + 1 - s - int n) = Suc (nat (int k + 1 - s - int (Suc n)))"
        using later by linarith
      have "u ! k = max 0 (min 255 (vs ! nat (int k + 1 - s - int (Suc n))))"
        using u3 [OF k] later by simp
      moreover have "(v # vs) ! nat (int k + 1 - s - int n) = vs ! nat (int k + 1 - s - int (Suc n))"
        by (simp only: idx nth_Cons_Suc)
      moreover have "s + int n \<le> int k + 1 \<and> int k + 1 < s + int n + int (length (v # vs))"
        using later by simp
      ultimately show ?thesis by (simp only: if_True simp_thms)
    next
      case out
      have c: "\<not> (s + int (Suc n) \<le> int k + 1 \<and> int k + 1 < s + int (Suc n) + int (length vs))"
        using out by linarith
      have "u ! k = dmx_data c1 ! k"
        using u3 [OF k] c by (simp only: if_False)
      also have "\<dots> = dmx_data c ! k"
      proof -
        have "int k + 1 \<noteq> s + int n" using out by linarith
        then show ?thesis using d1_miss [of k] by (simp add: c1_def)
      qed
      finally have "u ! k = dmx_data c ! k" .
      moreover have "\<not> (s + int n \<le> int k + 1 \<and> int k + 1 < s + int n + int (length (v # vs)))"
        using out by auto
      ultimately show ?thesis by (simp only: if_False simp_thms)
    qed
  qed
  have "fold (set_channels_step s) (enumerate n (v # vs)) (Inr c) = Inr (c\<lparr>dmx_data := u\<rparr>)"
    using step u1 eq by (simp add: enumerate_simps)
  with u2 pt show ?case by blast
qed

text \<open>Shifting the start of the enumeration is shifting the start channel.\<close>

lemma fold_enumerate_shift:
  "fold (set_channels_step s) (enumerate (Suc n) vs) r
     = fold (set_channels_step (s + 1)) (enumerate n vs) r"
proof (induction vs arbitrary: n r)
  case Nil
  show ?case by simp
next
  case (Cons v vs)
  have "set_channels_step s (Suc n, v) r = set_channels_step (s + 1) (n, v) r"
    by (cases r) (simp_all add: set_channels_step_def algebra_simps)
  then show ?case using Cons.IH by (simp add: enumerate_simps)
qed

lemma fold_set_channels_error:
  "fold (set_channels_step s) xs (Inl e) = Inl e"
  by (induction xs) (simp_all add: set_channels_step_def)

lemma set_channels_Nil: "set_channels start [] c = Inr c"
  by (simp add: set_channels_def)

lemma set_channels_Cons:
  "set_channels start (v # vs) c =
     (case set_channel start v c of
        Inl e \<Rightarrow> Inl e
      | Inr c1 \<Rightarrow> set_channels (start + 1) vs c1)"
proof (cases "set_channel start v c")
  case (Inl e)
  then show ?thesis
    by (simp add: set_channels_def enumerate_simps set_channels_step_def fold_set_channels_error)
next
  case (Inr c1)
  then show ?thesis
    by (simp add: set_channels_def enumerate_simps set_channels_step_def fold_enumerate_shift)
qed

lemma set_channels_pointwise:
  assumes "length (dmx_data c) = 512"
  shows "\<exists>u. set_channels start vs c = Inr (c\<lparr>dmx_data := u\<rparr>)
            \<and> length u = 512
            \<and> (\<forall>k<512. u ! k =
                 (if start \<le> int k + 1 \<and> int k + 1 < start + int (length vs)
                  then clamp (vs ! nat (int k + 1 - start)) 0 255
                  else dmx_data c ! k))"
proof -
  from fold_set_channels [OF assms, of start 0 vs] obtain u where
    u1: "fold (set_channels_step start) (enumerate 0 vs) (Inr c) = Inr (c\<lparr>dmx_data := u\<rparr>)"
    and u2: "length u = 512"
    and u3: "\<And>k. k < 512 \<Longrightarrow> u ! k =
                 (if start + int 0 \<le> int k + 1 \<and> int k + 1 < start + int 0 + int (length vs)
                  then max 0 (min 255 (vs ! nat (int k + 1 - start - int 0)))
                  else dmx_data c ! k)"
    by blast
  have "u ! k =
                 (if start \<le> int k + 1 \<and> int k + 1 < start + int (length vs)
                  then clamp (vs ! nat (int k + 1 - start)) 0 255
                  else dmx_data c ! k)" if "k < 512" for k
    using u3 [OF that] by (simp add: max_min_clamp)
  with u1 u2 show ?thesis unfolding set_channels_def by blast
qed

lemma set_channels_5_10_20_30:
  assumes "length (dmx_data c) = 512"
  shows "set_channels 5 [10, 20, 30] c
           = Inr (c\<lparr>dmx_data := (dmx_data c)[4 := 10, 5 := 20, 6 := 30]\<rparr>)"
  using assms
  by (simp add: set_channels_def enumerate_simps set_channels_step_def set_channel_def)

text \<open>
  C3. \<open>set_channels(start, values)\<close> is \<open>set_channel(start + i, values[i])\<close> for
  \<open>i = 0, 1, ...\<close> in that order: nothing for the empty sequence, and for
  \<open>v # vs\<close> first \<open>set_channel start v\<close>, then the rest from \<open>start + 1\<close>. On a universe
  of 512 slots it returns normally with 512 slots; channel \<open>k + 1\<close> holds
  \<open>clamp(values[k + 1 - start], 0, 255)\<close> when that index exists and its old value
  otherwise, so entries addressed past channel 512 (or before channel 1) change
  nothing. \<open>set_channels(5, [10, 20, 30])\<close> writes 10, 20, 30 to channels 5, 6, 7
  and nothing else.
\<close>

theorem set_channels_in_order:
  assumes "length (dmx_data c) = 512"
  shows "set_channels start [] c = Inr c
       \<and> set_channels start (v # vs) c =
           (case set_channel start v c of
              Inl e \<Rightarrow> Inl e
            | Inr c1 \<Rightarrow> set_channels (start + 1) vs c1)
       \<and> (\<exists>u. set_channels start vs c = Inr (c\<lparr>dmx_data := u\<rparr>)
              \<and> length u = 512
              \<and> (\<forall>k<512. u ! k =
                   (if start \<le> int k + 1 \<and> int k + 1 < start + int (length vs)
                    then clamp (vs ! nat (int k + 1 - start)) 0 255
                    else dmx_data c ! k)))
       \<and> set_channels 5 [10, 20, 30] c
           = Inr (c\<lparr>dmx_data := (dmx_data c)[4 := 10, 5 := 20, 6 := 30]\<rparr>)"
  using set_channels_Nil [of start c] set_channels_Cons [of start v vs c]
    set_channels_pointwise [OF assms, of start vs] set_channels_5_10_20_30 [OF assms]
  by (simp only: simp_thms)

theorem set_channels_in_order_witness:
  "length (dmx_data fresh) = 512
   \<and> (\<exists>u. set_channels 511 [300, - 5, 7] fresh = Inr (fresh\<lparr>dmx_data := u\<rparr>)
          \<and> length u = 512 \<and> u ! 509 = 0 \<and> u ! 510 = 255 \<and> u ! 511 = 0)
   \<and> set_channels 5 [10, 20, 30] fresh
       = Inr (fresh\<lparr>dmx_data := (dmx_data fresh)[4 := 10, 5 := 20, 6 := 30]\<rparr>)"
proof -
  have len: "length (dmx_data fresh) = 512" by (simp add: fresh_def)
  note t = set_channels_in_order [OF len, of 511 0 "[300, - 5, 7]"]
  from t obtain u where
    u1: "set_channels 511 [300, - 5, 7] fresh = Inr (fresh\<lparr>dmx_data := u\<rparr>)"
    and u2: "length u = 512"
    and u3: "\<forall>k<512. u ! k =
                   (if 511 \<le> int k + 1 \<and> int k + 1 < 511 + int (length [300, - 5, 7 :: int])
                    then clamp ([300, - 5, 7] ! nat (int k + 1 - 511)) 0 255
                    else dmx_data fresh ! k)"
    by blast
  have "u ! 509 = 0" using u3 [rule_format, of 509] by (simp add: fresh_def)
  moreover have "u ! 510 = 255" using u3 [rule_format, of 510] by (simp add: clamp_def)
  moreover have "u ! 511 = 0" using u3 [rule_format, of 511] by (simp add: clamp_def)
  ultimately show ?thesis using len u1 u2 t by blast
qed

section \<open>Packet encoder\<close>

lemma bytearray_universe:
  assumes "universe_inv u"
  shows "bytearray (0 # u) = Inr (0 # map word_of_int u)"
proof -
  have "list_all (\<lambda>x. 0 \<le> x \<and> x < 256) u"
    using assms by (auto simp add: universe_inv_def list_all_iff)
  then show ?thesis by (simp add: bytearray_def)
qed

lemma build_packet_universe:
  assumes "universe_inv u"
  shows "build_packet u = Inr ([0x7E, 0x06, 0x01, 0x02, 0x00] @ map word_of_int u @ [0xE7])"
proof -
  have len: "length u = 512" using assms by (simp add: universe_inv_def)
  show ?thesis
    by (simp add: build_packet_def bytearray_universe [OF assms] len drop_bit_eq_div)
qed

lemma uint_bytes_universe:
  assumes "universe_inv u"
  shows "map uint (map word_of_int u :: byte list) = u"
proof -
  have "uint (word_of_int x :: byte) = x" if "x \<in> set u" for x
  proof -
    have "0 \<le> x \<and> x < 256"
      using assms that by (auto simp add: universe_inv_def list_all_iff)
    then show ?thesis by (simp add: uint_word_of_int take_bit_eq_mod)
  qed
  then show ?thesis by (simp add: map_idI)
qed

lemma send_dmx_packet_universe:
  assumes "serial_port c = Some h" "universe_inv (dmx_data c)"
  shows "send_dmx_packet w c =
           (c, w = WriteOk,
            Some ([0x7E, 0x06, 0x01, 0x02, 0x00] @ map word_of_int (dmx_data c) @ [0xE7]))"
  using assms(1)
  by (cases w) (simp_all add: send_dmx_packet_def send_body_def build_packet_universe [OF assms(2)])

lemma universe_inv_test_vector: "universe_inv (255 # replicate 510 0 @ [10])"
  by (simp add: universe_inv_def list_all_iff)

lemma universe_inv_zeros: "universe_inv (replicate 512 0)"
  by (simp add: universe_inv_def list_all_iff)

text \<open>
  C1. For a universe of 512 values in \<open>[0, 255]\<close> the packet is the bytes
  \<open>7E 06 01 02 00\<close>, then the 512 channel values in order (each byte reads back as
  the channel value), then \<open>E7\<close>: 518 bytes; that packet is what \<open>send_dmx_packet\<close>
  hands to \<open>write\<close> on a connected controller. For the universe that is zero except
  channel 1 = 255 and channel 512 = 10 it is \<open>7E 06 01 02 00 FF\<close>, 510 zero bytes,
  \<open>0A E7\<close>.
\<close>

theorem frame_is_exact:
  "(universe_inv u \<longrightarrow>
      build_packet u = Inr ([0x7E, 0x06, 0x01, 0x02, 0x00] @ map word_of_int u @ [0xE7])
      \<and> map uint (map word_of_int u :: byte list) = u
      \<and> length ([0x7E, 0x06, 0x01, 0x02, 0x00] @ (map word_of_int u :: byte list) @ [0xE7]) = 518)
   \<and> (universe_inv (dmx_data c) \<and> serial_port c = Some h \<longrightarrow>
        snd (snd (send_dmx_packet w c)) =
          Some ([0x7E, 0x06, 0x01, 0x02, 0x00] @ map word_of_int (dmx_data c) @ [0xE7]))
   \<and> build_packet (255 # replicate 510 0 @ [10])
       = Inr ([0x7E, 0x06, 0x01, 0x02, 0x00, 0xFF] @ replicate 510 0x00 @ [0x0A, 0xE7])"
proof (intro conjI impI)
  assume inv: "universe_inv u"
  show "build_packet u = Inr ([0x7E, 0x06, 0x01, 0x02, 0x00] @ map word_of_int u @ [0xE7])"
    by (rule build_packet_universe [OF inv])
  show "map uint (map word_of_int u :: byte list) = u"
    by (rule uint_bytes_universe [OF inv])
  show "length ([0x7E, 0x06, 0x01, 0x02, 0x00] @ (map word_of_int u :: byte list) @ [0xE7]) = 518"
    using inv by (simp add: universe_inv_def)
next
  assume "universe_inv (dmx_data c) \<and> serial_port c = Some h"
  then show "snd (snd (send_dmx_packet w c)) =
          Some ([0x7E, 0x06, 0x01, 0x02, 0x00] @ map word_of_int (dmx_data c) @ [0xE7])"
    by (simp add: send_dmx_packet_universe)
next
  show "build_packet (255 # replicate 510 0 @ [10])
       = Inr ([0x7E, 0x06, 0x01, 0x02, 0x00, 0xFF] @ replicate 510 0x00 @ [0x0A, 0xE7])"
    by (simp add: build_packet_universe [OF universe_inv_test_vector])
qed

theorem frame_is_exact_witness:
  "universe_inv (replicate 512 7)
   \<and> build_packet (replicate 512 7)
       = Inr ([0x7E, 0x06, 0x01, 0x02, 0x00] @ replicate 512 0x07 @ [0xE7])
   \<and> universe_inv (dmx_data (fresh\<lparr>serial_port := Some \<lparr>port = ''COM3'', baudrate = 250000, is_open = True\<rparr>\<rparr>))
   \<and> snd (snd (send_dmx_packet WriteOk
        (fresh\<lparr>serial_port := Some \<lparr>port = ''COM3'', baudrate = 250000, is_open = True\<rparr>\<rparr>)))
       = Some ([0x7E, 0x06, 0x01, 0x02, 0x00] @ replicate 512 0x00 @ [0xE7])"
proof -
  have i1: "universe_inv (replicate 512 7)"
    by (simp add: universe_inv_def list_all_iff)
  have i2: "universe_inv (dmx_data (fresh\<lparr>serial_port := Some \<lparr>port = ''COM3'', baudrate = 250000, is_open = True\<rparr>\<rparr>))"
    by (simp add: fresh_def universe_inv_zeros)
  show ?thesis
    using i1 i2
      frame_is_exact [of "replicate 512 7" fresh
        "\<lparr>port = ''COM3'', baudrate = 250000, is_open = True\<rparr>" WriteOk]
      frame_is_exact [of "[]"
        "fresh\<lparr>serial_port := Some \<lparr>port = ''COM3'', baudrate = 250000, is_open = True\<rparr>\<rparr>"
        "\<lparr>port = ''COM3'', baudrate = 250000, is_open = True\<rparr>" WriteOk]
    by (simp add: fresh_def)
qed

section \<open>Blackout\<close>

text \<open>Schedules and the two invariants.\<close>

lemma copy_step:
  assumes "length buf < length xs" "buf = take (length buf) xs"
  shows "buf @ [xs ! length buf] = take (Suc (length buf)) xs"
  using assms by (metis take_Suc_conv_app_nth)

lemma copy_done:
  assumes "\<not> length buf < length xs" "length buf \<le> length xs" "buf = take (length buf) xs"
  shows "buf = xs"
  using assms by (metis le_neq_implies_less take_all order_refl)

lemma copying_step:
  assumes "copying s a buf" "objs s a = Some xs" "length buf < length xs"
  shows "copying s a (buf @ [xs ! length buf])"
proof -
  have "buf = take (length buf) xs" using assms(1,2) by (simp add: copying_def)
  then have "buf @ [xs ! length buf] = take (Suc (length buf)) xs"
    by (rule copy_step [OF assms(3)])
  then show ?thesis using assms(2,3) by (simp add: copying_def)
qed

lemma copying_done:
  assumes "copying s a buf" "objs s a = Some xs" "\<not> length buf < length xs"
  shows "buf = xs"
  using assms copy_done [of buf xs] by (simp add: copying_def)

lemma racing_init: "racing old (store_of old, [BlackoutStart, TickStart])"
  by (simp add: racing_def store_of_def)

lemma racing_step:
  assumes "racing old (s, ths)"
  shows "racing old (run [i] (s, ths))"
proof -
  have len: "length ths = 2" using assms by (simp add: racing_def)
  then obtain b t where ths: "ths = [b, t]"
    by (metis (no_types, opaque_lifting) One_nat_def Suc_1 length_0_conv length_Suc_conv)
  consider "i = 0" | "i = 1" | "2 \<le> i" by linarith
  then show ?thesis
  proof cases
    case 1
    show ?thesis
      using assms unfolding ths 1
      by (cases b; cases t) (auto simp add: racing_def copying_def split: option.splits)
  next
    case 2
    show ?thesis
      using assms unfolding ths 2
      apply (cases b; cases t)
      apply (auto simp add: racing_def copying_def copy_step split: option.splits)
      done
  next
    case 3
    then show ?thesis using assms len by simp
  qed
qed

lemma run_Cons: "run (i # sched) st = run sched (run [i] st)"
  by (cases st) (simp split: prod.splits)

lemma run_append: "run (xs @ ys) st = run ys (run xs st)"
proof (induction xs arbitrary: st)
  case Nil
  show ?case by simp
next
  case (Cons i xs)
  have "run ((i # xs) @ ys) st = run (xs @ ys) (run [i] st)"
    by (simp add: run_Cons [of i "xs @ ys"])
  also have "\<dots> = run ys (run xs (run [i] st))" by (rule Cons.IH)
  also have "\<dots> = run ys (run (i # xs) st)" by (simp add: run_Cons [of i xs])
  finally show ?case .
qed

lemma racing_run:
  assumes "racing old st"
  shows "racing old (run sched st)"
  using assms
proof (induction sched arbitrary: st)
  case Nil
  then show ?case by simp
next
  case (Cons i sched)
  obtain s ths where st: "st = (s, ths)" by (cases st)
  have "racing old (run [i] st)" using Cons.prems racing_step unfolding st by blast
  then have "racing old (run sched (run [i] st))" by (rule Cons.IH)
  then show ?case by (simp add: run_Cons [of i sched])
qed

lemma settled_step:
  assumes "settled (s, ths)"
  shows "settled (run [i] (s, ths))"
proof -
  have len: "length ths = 2" using assms by (simp add: settled_def)
  then obtain b t where ths: "ths = [b, t]"
    by (metis (no_types, opaque_lifting) One_nat_def Suc_1 length_0_conv length_Suc_conv)
  consider "i = 0" | "i = 1" | "2 \<le> i" by linarith
  then show ?thesis
  proof cases
    case 1
    show ?thesis
      using assms unfolding ths 1
      by (cases t) (auto simp add: settled_def copying_def split: option.splits)
  next
    case 2
    show ?thesis
    proof (cases t)
      case (TickCopying a buf)
      have a: "a = 1" and c: "copying s a buf" and o: "objs s 1 = Some (replicate 512 0)"
        using assms unfolding ths TickCopying by (auto simp add: settled_def)
      show ?thesis
      proof (cases "length buf < 512")
        case True
        have "copying s a (buf @ [replicate 512 0 ! length buf])"
          using copying_step [OF c, of "replicate 512 0"] a o True by simp
        then show ?thesis
          using assms a o True unfolding ths TickCopying 2 by (simp add: settled_def)
      next
        case False
        have "buf = replicate 512 0"
          using copying_done [OF c, of "replicate 512 0"] a o False by simp
        then show ?thesis
          using assms a o False unfolding ths TickCopying 2 by (simp add: settled_def)
      qed
    qed (use assms in \<open>auto simp add: settled_def copying_def ths 2\<close>)
  next
    case 3
    then show ?thesis using assms len by simp
  qed
qed

lemma settled_run:
  assumes "settled st"
  shows "settled (run sched st)"
  using assms
proof (induction sched arbitrary: st)
  case Nil
  then show ?case by simp
next
  case (Cons i sched)
  obtain s ths where st: "st = (s, ths)" by (cases st)
  have "settled (run [i] st)" using Cons.prems settled_step unfolding st by blast
  then have "settled (run sched (run [i] st))" by (rule Cons.IH)
  then show ?case by (simp add: run_Cons [of i sched])
qed

lemma settled_after_blackout: "settled (run [0, 0] (store_of old, [BlackoutStart, TickStart]))"
  by (simp add: settled_def store_of_def)

lemma tick_snapshot_old_or_zeros:
  assumes "snd (run sched (store_of old, [BlackoutStart, TickStart])) ! 1 = Finished (Some snap)"
  shows "snap = old \<or> snap = replicate 512 0"
proof -
  have "racing old (run sched (store_of old, [BlackoutStart, TickStart]))"
    by (rule racing_run [OF racing_init])
  then show ?thesis using assms
    by (cases "run sched (store_of old, [BlackoutStart, TickStart])") (auto simp add: racing_def)
qed

lemma blackout_finished_zeros:
  assumes "snd (run sched (store_of old, [BlackoutStart, TickStart])) ! 0 = Finished None"
  shows "objs (fst (run sched (store_of old, [BlackoutStart, TickStart])))
              (dmx_ref (fst (run sched (store_of old, [BlackoutStart, TickStart]))))
           = Some (replicate 512 0)"
proof -
  have "racing old (run sched (store_of old, [BlackoutStart, TickStart]))"
    by (rule racing_run [OF racing_init])
  then show ?thesis using assms
    by (cases "run sched (store_of old, [BlackoutStart, TickStart])") (auto simp add: racing_def)
qed

lemma tick_after_blackout_zeros:
  assumes "snd (run ([0, 0] @ sched) (store_of old, [BlackoutStart, TickStart])) ! 1 = Finished (Some snap)"
  shows "snap = replicate 512 0"
proof -
  have "settled (run sched (run [0, 0] (store_of old, [BlackoutStart, TickStart])))"
    by (rule settled_run [OF settled_after_blackout])
  then have "settled (run ([0, 0] @ sched) (store_of old, [BlackoutStart, TickStart]))"
    by (simp only: run_append)
  then show ?thesis using assms
    by (cases "run ([0, 0] @ sched) (store_of old, [BlackoutStart, TickStart])") (auto simp add: settled_def)
qed

lemma blackout_thread_is_blackout:
  "fst (run [0, 0] (store_of (dmx_data c), [BlackoutStart]))
     = \<lparr>objs = [0 \<mapsto> dmx_data c, 1 \<mapsto> dmx_data (fst (blackout c))], dmx_ref = 1, next_addr = 2\<rparr>"
  by (simp add: store_of_def blackout_def)

text \<open>Copy steps of the tick, run back to back.\<close>

lemma run_copy:
  assumes "objs s a = Some xs" "length buf + n \<le> length xs" "i < length ths"
    "ths ! i = TickCopying a buf"
  shows "run (replicate n i @ sched) (s, ths)
           = run sched (s, ths[i := TickCopying a (buf @ take n (drop (length buf) xs))])"
  using assms
proof (induction n arbitrary: buf ths)
  case 0
  have "ths[i := TickCopying a buf] = ths" using "0.prems" by (metis list_update_id)
  then show ?case by simp
next
  case (Suc n)
  have lt: "length buf < length xs" using Suc.prems by simp
  let ?buf' = "buf @ [xs ! length buf]"
  let ?ths' = "ths[i := TickCopying a ?buf']"
  have step: "run (replicate (Suc n) i @ sched) (s, ths) = run (replicate n i @ sched) (s, ?ths')"
    using Suc.prems lt by simp
  have "run (replicate n i @ sched) (s, ?ths')
          = run sched (s, ?ths'[i := TickCopying a (?buf' @ take n (drop (length ?buf') xs))])"
    using Suc.prems by (intro Suc.IH) simp_all
  moreover have "?buf' @ take n (drop (length ?buf') xs) = buf @ take (Suc n) (drop (length buf) xs)"
    using lt by (simp add: take_Suc_conv_app_nth Cons_nth_drop_Suc [symmetric])
  ultimately show ?case using step by simp
qed

text \<open>
  Two complete schedules: the tick reads the attribute before the blackout thread runs
  and copies afterwards (it holds the universe from before); the tick starts after the
  blackout thread is done (it holds 512 zeros).
\<close>

lemma stale_tick:
  assumes "length old = 512"
  shows "run ([1, 0, 0] @ replicate 512 1 @ [1]) (store_of old, [BlackoutStart, TickStart])
           = (\<lparr>objs = [0 \<mapsto> old, 1 \<mapsto> replicate 512 0], dmx_ref = 1, next_addr = 2\<rparr>,
              [Finished None, Finished (Some old)])"
proof -
  let ?s = "\<lparr>objs = [0 \<mapsto> old, 1 \<mapsto> replicate 512 0], dmx_ref = 1, next_addr = 2\<rparr>"
  have a: "run [1, 0, 0] (store_of old, [BlackoutStart, TickStart]) = (?s, [Finished None, TickCopying 0 []])"
    by (simp add: store_of_def)
  have b: "run (replicate 512 1 @ [1]) (?s, [Finished None, TickCopying 0 []])
             = run [1] (?s, [Finished None, TickCopying 0 old])"
    using run_copy [of ?s 0 old "[]" 512 1 "[Finished None, TickCopying 0 []]" "[1]"] assms
    by simp
  have c: "run [1] (?s, [Finished None, TickCopying 0 old])
             = (?s, [Finished None, Finished (Some old)])"
    by simp
  have "run ([1, 0, 0] @ replicate 512 1 @ [1]) (store_of old, [BlackoutStart, TickStart])
          = run (replicate 512 1 @ [1]) (run [1, 0, 0] (store_of old, [BlackoutStart, TickStart]))"
    by (rule run_append)
  also have "\<dots> = run (replicate 512 1 @ [1]) (?s, [Finished None, TickCopying 0 []])"
    by (simp only: a)
  also have "\<dots> = run [1] (?s, [Finished None, TickCopying 0 old])" by (rule b)
  also have "\<dots> = (?s, [Finished None, Finished (Some old)])" by (rule c)
  finally show ?thesis .
qed

lemma late_tick:
  "run ([0, 0] @ [1] @ replicate 512 1 @ [1]) (store_of old, [BlackoutStart, TickStart])
     = (\<lparr>objs = [0 \<mapsto> old, 1 \<mapsto> replicate 512 0], dmx_ref = 1, next_addr = 2\<rparr>,
        [Finished None, Finished (Some (replicate 512 0))])"
proof -
  let ?s = "\<lparr>objs = [0 \<mapsto> old, 1 \<mapsto> replicate 512 0], dmx_ref = 1, next_addr = 2\<rparr>"
  have a: "run ([0, 0] @ [1]) (store_of old, [BlackoutStart, TickStart])
             = (?s, [Finished None, TickCopying 1 []])"
    by (simp add: store_of_def)
  have b: "run (replicate 512 1 @ [1]) (?s, [Finished None, TickCopying 1 []])
             = run [1] (?s, [Finished None, TickCopying 1 (replicate 512 0)])"
    using run_copy [of ?s 1 "replicate 512 0" "[]" 512 1 "[Finished None, TickCopying 1 []]" "[1]"]
    by simp
  have c: "run [1] (?s, [Finished None, TickCopying 1 (replicate 512 0)])
             = (?s, [Finished None, Finished (Some (replicate 512 0))])"
    by simp
  have "run ([0, 0] @ [1] @ replicate 512 1 @ [1]) (store_of old, [BlackoutStart, TickStart])
          = run (([0, 0] @ [1]) @ replicate 512 1 @ [1]) (store_of old, [BlackoutStart, TickStart])"
    by simp
  also have "\<dots> = run (replicate 512 1 @ [1])
                      (run ([0, 0] @ [1]) (store_of old, [BlackoutStart, TickStart]))"
    by (rule run_append)
  also have "\<dots> = run (replicate 512 1 @ [1]) (?s, [Finished None, TickCopying 1 []])"
    by (simp only: a)
  also have "\<dots> = run [1] (?s, [Finished None, TickCopying 1 (replicate 512 0)])" by (rule b)
  also have "\<dots> = (?s, [Finished None, Finished (Some (replicate 512 0))])" by (rule c)
  finally show ?thesis .
qed

text \<open>
  The model does tell a whole update from a partial one: a tick that runs between the
  first and the second item assignment of \<open>set_channels(5, [10, 20, 30])\<close> copies a
  universe that has channel 5 set and channels 6 and 7 not yet, which is neither the
  universe before the call nor the one after it.
\<close>

lemma set_channels_half_applied:
  "run ([0, 1] @ replicate 512 1 @ [1])
       (store_of (replicate 512 0), [SetChannels 5 0 [10, 20, 30], TickStart])
     = (\<lparr>objs = [0 \<mapsto> (replicate 512 0)[4 := 10]], dmx_ref = 0, next_addr = 1\<rparr>,
        [SetChannels 5 1 [20, 30], Finished (Some ((replicate 512 0)[4 := 10]))])"
proof -
  let ?u = "(replicate 512 (0::int))[4 := 10]"
  let ?s = "\<lparr>objs = [0 \<mapsto> ?u], dmx_ref = 0, next_addr = 1\<rparr>"
  have a: "run [0, 1] (store_of (replicate 512 0), [SetChannels 5 0 [10, 20, 30], TickStart])
             = (?s, [SetChannels 5 1 [20, 30], TickCopying 0 []])"
    by (simp add: store_of_def set_channel_def fresh_def)
  have b: "run (replicate 512 1 @ [1]) (?s, [SetChannels 5 1 [20, 30], TickCopying 0 []])
             = run [1] (?s, [SetChannels 5 1 [20, 30], TickCopying 0 ?u])"
    using run_copy [of ?s 0 ?u "[]" 512 1 "[SetChannels 5 1 [20, 30], TickCopying 0 []]" "[1]"]
    by simp
  have c: "run [1] (?s, [SetChannels 5 1 [20, 30], TickCopying 0 ?u])
             = (?s, [SetChannels 5 1 [20, 30], Finished (Some ?u)])"
    by simp
  have "run ([0, 1] @ replicate 512 1 @ [1])
          (store_of (replicate 512 0), [SetChannels 5 0 [10, 20, 30], TickStart])
          = run (replicate 512 1 @ [1])
              (run [0, 1] (store_of (replicate 512 0), [SetChannels 5 0 [10, 20, 30], TickStart]))"
    by (rule run_append)
  also have "\<dots> = run (replicate 512 1 @ [1]) (?s, [SetChannels 5 1 [20, 30], TickCopying 0 []])"
    by (simp only: a)
  also have "\<dots> = run [1] (?s, [SetChannels 5 1 [20, 30], TickCopying 0 ?u])" by (rule b)
  also have "\<dots> = (?s, [SetChannels 5 1 [20, 30], Finished (Some ?u)])" by (rule c)
  finally show ?thesis .
qed

lemma half_applied_is_neither:
  "(replicate 512 (0::int))[4 := 10] \<noteq> replicate 512 0
   \<and> (replicate 512 (0::int))[4 := 10] \<noteq> (replicate 512 0)[4 := 10, 5 := 20, 6 := 30]"
proof -
  have "(replicate 512 (0::int))[4 := 10] ! 4 \<noteq> replicate 512 0 ! 4" by simp
  moreover have "(replicate 512 (0::int))[4 := 10] ! 5 \<noteq> (replicate 512 0)[4 := 10, 5 := 20, 6 := 30] ! 5"
    by simp
  ultimately show ?thesis by metis
qed

lemma set_channel_carrier:
  assumes "length u = 512"
  shows "\<exists>u'. set_channel ch v (fresh\<lparr>dmx_data := u\<rparr>) = Inr (fresh\<lparr>dmx_data := u'\<rparr>) \<and> length u' = 512"
  using assms by (auto simp add: set_channel_def fresh_def)

text \<open>
  The \<open>SetChannels\<close> thread run on its own leaves in the list object what \<open>set_channels\<close>
  computes.
\<close>

lemma set_channels_thread_alone:
  assumes "length u = 512"
  shows "\<exists>u'. set_channels (start + int i) vs (fresh\<lparr>dmx_data := u\<rparr>) = Inr (fresh\<lparr>dmx_data := u'\<rparr>)
            \<and> run (replicate (Suc (length vs)) 0)
                 (\<lparr>objs = [0 \<mapsto> u], dmx_ref = 0, next_addr = 1\<rparr>, [SetChannels start i vs])
               = (\<lparr>objs = [0 \<mapsto> u'], dmx_ref = 0, next_addr = 1\<rparr>, [Finished None])"
  using assms
proof (induction vs arbitrary: i u)
  case Nil
  show ?case by (rule exI [of _ u]) (simp add: set_channels_Nil)
next
  case (Cons v vs)
  from set_channel_carrier [OF Cons.prems, of "start + int i" v] obtain u1 where
    u1: "set_channel (start + int i) v (fresh\<lparr>dmx_data := u\<rparr>) = Inr (fresh\<lparr>dmx_data := u1\<rparr>)"
    and l1: "length u1 = 512" by blast
  from Cons.IH [OF l1, of "Suc i"] obtain u' where
    r1: "set_channels (start + int (Suc i)) vs (fresh\<lparr>dmx_data := u1\<rparr>) = Inr (fresh\<lparr>dmx_data := u'\<rparr>)"
    and r2: "run (replicate (Suc (length vs)) 0)
                 (\<lparr>objs = [0 \<mapsto> u1], dmx_ref = 0, next_addr = 1\<rparr>, [SetChannels start (Suc i) vs])
               = (\<lparr>objs = [0 \<mapsto> u'], dmx_ref = 0, next_addr = 1\<rparr>, [Finished None])"
    by blast
  have e1: "set_channels (start + int i) (v # vs) (fresh\<lparr>dmx_data := u\<rparr>) = Inr (fresh\<lparr>dmx_data := u'\<rparr>)"
    using u1 r1 by (simp add: set_channels_Cons ac_simps)
  have e2: "run (replicate (Suc (length (v # vs))) 0)
                 (\<lparr>objs = [0 \<mapsto> u], dmx_ref = 0, next_addr = 1\<rparr>, [SetChannels start i (v # vs)])
               = (\<lparr>objs = [0 \<mapsto> u'], dmx_ref = 0, next_addr = 1\<rparr>, [Finished None])"
    using u1 r2 by (simp add: fresh_def)
  from e1 e2 show ?case by blast
qed

text \<open>
  C4. Whatever the controller held, \<open>blackout\<close> returns it with the universe replaced by
  512 zeros and every other attribute as it was, and a packet built from the universe
  afterwards carries 512 zero channel bytes. As threads: the blackout thread run on its
  own ends with \<open>dmx_data\<close> bound to the list \<open>blackout\<close> computes. Next to a tick
  thread, under every schedule, a tick that completes its copy holds either the whole
  universe from before or 512 zeros, never a mixture; once the blackout thread is done
  \<open>dmx_data\<close> is bound to 512 zeros; and a tick that starts after the blackout thread is
  done copies 512 zeros.
\<close>

theorem blackout_zeroes_universe:
  "dmx_data (fst (blackout c)) = replicate 512 0
   \<and> length (dmx_data (fst (blackout c))) = 512
   \<and> fst (blackout c) = c\<lparr>dmx_data := replicate 512 0\<rparr>
   \<and> serial_port (fst (blackout c)) = serial_port c
   \<and> running (fst (blackout c)) = running c
   \<and> build_packet (dmx_data (fst (blackout c)))
       = Inr ([0x7E, 0x06, 0x01, 0x02, 0x00] @ replicate 512 0x00 @ [0xE7])
   \<and> fst (run [0, 0] (store_of (dmx_data c), [BlackoutStart]))
       = \<lparr>objs = [0 \<mapsto> dmx_data c, 1 \<mapsto> dmx_data (fst (blackout c))],
          dmx_ref = 1, next_addr = 2\<rparr>
   \<and> (snd (run sched (store_of (dmx_data c), [BlackoutStart, TickStart])) ! 1
         = Finished (Some snap)
        \<longrightarrow> snap = dmx_data c \<or> snap = replicate 512 0)
   \<and> (snd (run sched (store_of (dmx_data c), [BlackoutStart, TickStart])) ! 0 = Finished None
        \<longrightarrow> objs (fst (run sched (store_of (dmx_data c), [BlackoutStart, TickStart])))
                 (dmx_ref (fst (run sched (store_of (dmx_data c), [BlackoutStart, TickStart]))))
              = Some (replicate 512 0))
   \<and> (snd (run ([0, 0] @ sched) (store_of (dmx_data c), [BlackoutStart, TickStart])) ! 1
         = Finished (Some snap)
        \<longrightarrow> snap = replicate 512 0)"
proof (intro conjI impI)
  show "fst (run [0, 0] (store_of (dmx_data c), [BlackoutStart]))
       = \<lparr>objs = [0 \<mapsto> dmx_data c, 1 \<mapsto> dmx_data (fst (blackout c))],
          dmx_ref = 1, next_addr = 2\<rparr>"
    by (rule blackout_thread_is_blackout)
  show "build_packet (dmx_data (fst (blackout c)))
       = Inr ([0x7E, 0x06, 0x01, 0x02, 0x00] @ replicate 512 0x00 @ [0xE7])"
    by (simp add: blackout_def build_packet_universe [OF universe_inv_zeros])
next
  assume "snd (run sched (store_of (dmx_data c), [BlackoutStart, TickStart])) ! 1
            = Finished (Some snap)"
  then show "snap = dmx_data c \<or> snap = replicate 512 0"
    by (rule tick_snapshot_old_or_zeros)
next
  assume "snd (run sched (store_of (dmx_data c), [BlackoutStart, TickStart])) ! 0 = Finished None"
  then show "objs (fst (run sched (store_of (dmx_data c), [BlackoutStart, TickStart])))
                 (dmx_ref (fst (run sched (store_of (dmx_data c), [BlackoutStart, TickStart]))))
              = Some (replicate 512 0)"
    by (rule blackout_finished_zeros)
next
  assume "snd (run ([0, 0] @ sched) (store_of (dmx_data c), [BlackoutStart, TickStart])) ! 1
            = Finished (Some snap)"
  then show "snap = replicate 512 0"
    by (rule tick_after_blackout_zeros)
qed (simp_all add: blackout_def)

theorem blackout_zeroes_universe_witness:
  "snd (run ([1, 0, 0] @ replicate 512 1 @ [1])
          (store_of (replicate 512 7), [BlackoutStart, TickStart]))
     = [Finished None, Finished (Some (replicate 512 7))]
   \<and> objs (fst (run ([1, 0, 0] @ replicate 512 1 @ [1])
                  (store_of (replicate 512 7), [BlackoutStart, TickStart])))
          (dmx_ref (fst (run ([1, 0, 0] @ replicate 512 1 @ [1])
                  (store_of (replicate 512 7), [BlackoutStart, TickStart]))))
       = Some (replicate 512 0)
   \<and> snd (run ([0, 0] @ [1] @ replicate 512 1 @ [1])
          (store_of (replicate 512 7), [BlackoutStart, TickStart]))
       = [Finished None, Finished (Some (replicate 512 0))]"
proof -
  have d: "dmx_data (fresh\<lparr>dmx_data := replicate 512 7\<rparr>) = replicate 512 7" by simp
  have len: "length (replicate 512 (7::int)) = 512" by simp
  have h1: "snd (run ([1, 0, 0] @ replicate 512 1 @ [1])
              (store_of (replicate 512 7), [BlackoutStart, TickStart]))
            = [Finished None, Finished (Some (replicate 512 7))]"
    by (simp only: stale_tick [OF len] snd_conv)
  have h3: "snd (run ([0, 0] @ [1] @ replicate 512 1 @ [1])
              (store_of (replicate 512 7), [BlackoutStart, TickStart]))
            = [Finished None, Finished (Some (replicate 512 0))]"
    by (simp only: late_tick [of "replicate 512 7"] snd_conv)
  note t1 = blackout_zeroes_universe
              [of "fresh\<lparr>dmx_data := replicate 512 7\<rparr>" "[1, 0, 0] @ replicate 512 1 @ [1]"
                  "replicate 512 7", unfolded d]
  note t3 = blackout_zeroes_universe
              [of "fresh\<lparr>dmx_data := replicate 512 7\<rparr>" "[1] @ replicate 512 1 @ [1]"
                  "replicate 512 0", unfolded d]
  have i2: "snd (run ([1, 0, 0] @ replicate 512 1 @ [1])
              (store_of (replicate 512 7), [BlackoutStart, TickStart])) ! 0 = Finished None"
    by (simp only: h1 nth_Cons_0)
  have h2: "objs (fst (run ([1, 0, 0] @ replicate 512 1 @ [1])
                  (store_of (replicate 512 7), [BlackoutStart, TickStart])))
          (dmx_ref (fst (run ([1, 0, 0] @ replicate 512 1 @ [1])
                  (store_of (replicate 512 7), [BlackoutStart, TickStart]))))
       = Some (replicate 512 0)"
    using t1 i2 by blast
  show ?thesis using h1 h2 h3 t3 by blast
qed

section \<open>Scheduler start and stop\<close>

lemma start_updates_running: "running (start_updates c)"
  by (simp add: start_updates_def)

lemma start_updates_noop: "running c \<Longrightarrow> start_updates c = c"
  by (simp add: start_updates_def)

text \<open>
  C8. With the running flag set, \<open>start_updates\<close> returns the controller as it is: no
  attribute changes and no thread is started. Hence a second start after a first one
  changes nothing, and the count of started loops stays where the first start left it
  (one, from a controller that has started none).
\<close>

theorem start_updates_idempotent:
  "(running c \<longrightarrow> start_updates c = c \<and> threads_started (start_updates c) = threads_started c)
   \<and> start_updates (start_updates c) = start_updates c
   \<and> threads_started (start_updates (start_updates c)) = threads_started (start_updates c)
   \<and> (\<not> running c \<longrightarrow>
        threads_started (start_updates (start_updates c)) = Suc (threads_started c))"
proof -
  have "start_updates (start_updates c) = start_updates c"
    by (rule start_updates_noop [OF start_updates_running])
  then show ?thesis by (simp add: start_updates_def)
qed

theorem start_updates_idempotent_witness:
  "running (fresh\<lparr>running := True, update_thread := Some 0, threads_started := 1\<rparr>)
   \<and> start_updates (fresh\<lparr>running := True, update_thread := Some 0, threads_started := 1\<rparr>)
       = fresh\<lparr>running := True, update_thread := Some 0, threads_started := 1\<rparr>
   \<and> \<not> running fresh
   \<and> threads_started (start_updates (start_updates fresh)) = 1"
  using start_updates_idempotent
          [of "fresh\<lparr>running := True, update_thread := Some 0, threads_started := 1\<rparr>"]
        start_updates_idempotent [of fresh]
  by (simp add: fresh_def)

text \<open>
  C10. On a controller that holds a serial handle, \<open>stop\<close> clears the running flag and
  closes the handle, and the handle stays in \<open>serial_port\<close>; the universe, the thread
  reference and the thread count are untouched. The status computed afterwards says
  connected, names the port, and says not running.
\<close>

theorem stop_keeps_handle:
  assumes "serial_port c = Some h"
  shows "stop c = c\<lparr>running := False, serial_port := Some (h\<lparr>is_open := False\<rparr>)\<rparr>
       \<and> running (stop c) = False
       \<and> serial_port (stop c) = Some (h\<lparr>is_open := False\<rparr>)
       \<and> dmx_data (stop c) = dmx_data c
       \<and> update_thread (stop c) = update_thread c
       \<and> threads_started (stop c) = threads_started c
       \<and> get_status (stop c)
           = \<lparr>st_connected = True, st_port = Some (port h), st_running = False\<rparr>"
  using assms by (simp add: stop_def get_status_def)

theorem stop_keeps_handle_witness:
  "serial_port (start_updates (fresh\<lparr>serial_port :=
       Some \<lparr>port = ''/dev/ttyUSB0'', baudrate = 250000, is_open = True\<rparr>\<rparr>))
     = Some \<lparr>port = ''/dev/ttyUSB0'', baudrate = 250000, is_open = True\<rparr>
   \<and> get_status (stop (start_updates (fresh\<lparr>serial_port :=
       Some \<lparr>port = ''/dev/ttyUSB0'', baudrate = 250000, is_open = True\<rparr>\<rparr>)))
     = \<lparr>st_connected = True, st_port = Some ''/dev/ttyUSB0'', st_running = False\<rparr>
   \<and> serial_port (stop (start_updates (fresh\<lparr>serial_port :=
       Some \<lparr>port = ''/dev/ttyUSB0'', baudrate = 250000, is_open = True\<rparr>\<rparr>)))
     = Some \<lparr>port = ''/dev/ttyUSB0'', baudrate = 250000, is_open = False\<rparr>"
proof -
  have h: "serial_port (start_updates (fresh\<lparr>serial_port :=
       Some \<lparr>port = ''/dev/ttyUSB0'', baudrate = 250000, is_open = True\<rparr>\<rparr>))
     = Some \<lparr>port = ''/dev/ttyUSB0'', baudrate = 250000, is_open = True\<rparr>"
    by (simp add: start_updates_def fresh_def)
  show ?thesis
    using h stop_keeps_handle [OF h]
    by (simp add: get_status_def start_updates_def fresh_def)
qed

section \<open>The update request\<close>

lemma set_channels_returns:
  assumes "length (dmx_data c) = 512"
  shows "\<exists>c'. set_channels start vs c = Inr c' \<and> length (dmx_data c') = 512"
proof -
  from set_channels_pointwise [OF assms, of start vs] obtain u where
    "set_channels start vs c = Inr (c\<lparr>dmx_data := u\<rparr>)" "length u = 512"
    by blast
  then show ?thesis by simp
qed

text \<open>
  C9. On a universe of 512 slots, \<open>update_dmx\<close> applies the request's values through
  \<open>set_channels\<close> from the request's start channel, or from channel 1 when the request
  has none, and answers with that start channel and the number of values in the
  request; a request without values applies nothing and answers with count 0.
\<close>

theorem update_dmx_reports:
  assumes "length (dmx_data c) = 512"
  shows "(\<exists>c'. set_channels a vs c = Inr c'
            \<and> update_dmx \<lparr>startAddress = Some a, channels = Some vs\<rparr> c
                = Inr (c', \<lparr>status = ''ok'', address = a, channels_updated = length vs\<rparr>))
       \<and> (\<exists>c'. set_channels 1 vs c = Inr c'
            \<and> update_dmx \<lparr>startAddress = None, channels = Some vs\<rparr> c
                = Inr (c', \<lparr>status = ''ok'', address = 1, channels_updated = length vs\<rparr>))
       \<and> update_dmx \<lparr>startAddress = Some a, channels = None\<rparr> c
           = Inr (c, \<lparr>status = ''ok'', address = a, channels_updated = 0\<rparr>)
       \<and> update_dmx \<lparr>startAddress = None, channels = None\<rparr> c
           = Inr (c, \<lparr>status = ''ok'', address = 1, channels_updated = 0\<rparr>)"
proof -
  from set_channels_returns [OF assms, of a vs] obtain c1 where
    c1: "set_channels a vs c = Inr c1" by blast
  from set_channels_returns [OF assms, of 1 vs] obtain c2 where
    c2: "set_channels 1 vs c = Inr c2" by blast
  show ?thesis
    using c1 c2 by (simp add: update_dmx_def set_channels_Nil)
qed

theorem update_dmx_reports_witness:
  "length (dmx_data fresh) = 512
   \<and> update_dmx \<lparr>startAddress = Some 5, channels = Some [10, 20, 30]\<rparr> fresh
       = Inr (fresh\<lparr>dmx_data := (dmx_data fresh)[4 := 10, 5 := 20, 6 := 30]\<rparr>,
              \<lparr>status = ''ok'', address = 5, channels_updated = 3\<rparr>)
   \<and> update_dmx \<lparr>startAddress = None, channels = None\<rparr> fresh
       = Inr (fresh, \<lparr>status = ''ok'', address = 1, channels_updated = 0\<rparr>)"
proof -
  have len: "length (dmx_data fresh) = 512" by (simp add: fresh_def)
  show ?thesis
    using len update_dmx_reports [OF len, of 5 "[10, 20, 30]"]
      set_channels_5_10_20_30 [OF len]
    by simp
qed

section \<open>The universe invariant\<close>

lemma universe_inv_update:
  assumes "universe_inv u"
  shows "universe_inv (u[i := max 0 (min 255 v)])"
proof -
  have "set (u[i := max 0 (min 255 v)]) \<subseteq> insert (max 0 (min 255 v)) (set u)"
    by (rule set_update_subset_insert)
  then show ?thesis
    using assms by (auto simp add: universe_inv_def list_all_iff)
qed

lemma set_channel_inv:
  assumes "universe_inv (dmx_data c)"
  shows "\<exists>c'. set_channel ch v c = Inr c' \<and> universe_inv (dmx_data c')"
proof -
  have len: "length (dmx_data c) = 512" using assms by (simp add: universe_inv_def)
  show ?thesis
    using assms universe_inv_update [OF assms]
    by (simp add: set_channel_cases [OF len])
qed

lemma set_channels_inv:
  assumes "universe_inv (dmx_data c)"
  shows "\<exists>c'. set_channels start vs c = Inr c' \<and> universe_inv (dmx_data c')"
  using assms
proof (induction vs arbitrary: start c)
  case Nil
  then show ?case by (simp add: set_channels_Nil)
next
  case (Cons v vs)
  from set_channel_inv [OF Cons.prems, of start v] obtain c1 where
    c1: "set_channel start v c = Inr c1" "universe_inv (dmx_data c1)" by blast
  from Cons.IH [OF c1(2), of "start + 1"] show ?case
    using c1(1) by (simp add: set_channels_Cons)
qed

lemma update_dmx_inv:
  assumes "universe_inv (dmx_data c)"
  shows "\<exists>c' resp. update_dmx req c = Inr (c', resp) \<and> universe_inv (dmx_data c')"
proof -
  from set_channels_inv [OF assms] obtain c' where
    "set_channels (case startAddress req of None \<Rightarrow> 1 | Some a \<Rightarrow> a)
                  (case channels req of None \<Rightarrow> [] | Some xs \<Rightarrow> xs) c = Inr c'"
    "universe_inv (dmx_data c')"
    by blast
  then show ?thesis by (simp add: update_dmx_def)
qed

text \<open>\<open>connect\<close> always returns; it never touches the universe.\<close>

lemma connect_returns:
  "\<exists>c' r. connect openable dev b c = Inr (c', r) \<and> dmx_data c' = dmx_data c"
  by (cases "Serial openable dev b") (auto simp add: connect_def start_updates_def)

lemma auto_connect_dmx_data:
  "dmx_data (fst (auto_connect openable ports b c)) = dmx_data c"
proof (induction ports)
  case Nil
  show ?case by simp
next
  case (Cons p ports)
  from connect_returns [of openable "device p" b c] obtain c' r where
    "connect openable (device p) b c = Inr (c', r)" "dmx_data c' = dmx_data c" by blast
  then show ?case using Cons.IH by simp
qed

lemma init_dmx_data: "dmx_data (init openable ports p b) = replicate 512 0"
proof -
  have f: "dmx_data fresh = replicate 512 0" by (simp add: fresh_def)
  have c: "dmx_data (case connect openable dev b fresh of Inr (c, r) \<Rightarrow> c | Inl e \<Rightarrow> fresh)
             = replicate 512 0" for dev
  proof -
    from connect_returns [of openable dev b fresh] obtain c' r where
      "connect openable dev b fresh = Inr (c', r)" "dmx_data c' = dmx_data fresh" by blast
    then show ?thesis using f by simp
  qed
  show ?thesis
    by (simp add: init_def c auto_connect_dmx_data f split: option.splits)
qed

lemma send_dmx_packet_state: "fst (send_dmx_packet w c) = c"
  by (simp add: send_dmx_packet_def split: option.splits sum.splits prod.splits)

lemma send_dmx_packet_raises: "fst (snd (send_dmx_packet WriteRaises c)) = False"
  by (simp add: send_dmx_packet_def send_body_def split: option.splits sum.splits prod.splits)

text \<open>
  C5. The universe has 512 slots with values in \<open>[0, 255]\<close> when \<open>__init__\<close> is done,
  whatever ports exist and whether or not one opens. From a controller whose universe
  satisfies this, \<open>set_channel\<close>, \<open>set_channels\<close> and \<open>update_dmx\<close> return normally with
  a universe that satisfies it, and so do \<open>blackout\<close>, \<open>connect\<close>, \<open>auto_connect\<close>,
  \<open>send_dmx_packet\<close>, \<open>start_updates\<close> and \<open>stop\<close>.
\<close>

theorem universe_invariant:
  "universe_inv (dmx_data (init openable ports p b))
   \<and> (universe_inv (dmx_data c) \<longrightarrow>
        (\<exists>c'. set_channel ch v c = Inr c' \<and> universe_inv (dmx_data c'))
        \<and> (\<exists>c'. set_channels start vs c = Inr c' \<and> universe_inv (dmx_data c'))
        \<and> (\<exists>c' resp. update_dmx req c = Inr (c', resp) \<and> universe_inv (dmx_data c'))
        \<and> universe_inv (dmx_data (fst (blackout c)))
        \<and> (\<exists>c' r. connect openable dev b c = Inr (c', r) \<and> universe_inv (dmx_data c'))
        \<and> universe_inv (dmx_data (fst (auto_connect openable ports b c)))
        \<and> universe_inv (dmx_data (fst (send_dmx_packet w c)))
        \<and> universe_inv (dmx_data (start_updates c))
        \<and> universe_inv (dmx_data (stop c)))"
proof (intro conjI impI)
  show "universe_inv (dmx_data (init openable ports p b))"
    by (simp add: init_dmx_data universe_inv_zeros)
next
  assume inv: "universe_inv (dmx_data c)"
  show "\<exists>c'. set_channel ch v c = Inr c' \<and> universe_inv (dmx_data c')"
    by (rule set_channel_inv [OF inv])
  show "\<exists>c'. set_channels start vs c = Inr c' \<and> universe_inv (dmx_data c')"
    by (rule set_channels_inv [OF inv])
  show "\<exists>c' resp. update_dmx req c = Inr (c', resp) \<and> universe_inv (dmx_data c')"
    by (rule update_dmx_inv [OF inv])
  show "universe_inv (dmx_data (fst (blackout c)))"
    by (simp add: blackout_def universe_inv_zeros)
  show "\<exists>c' r. connect openable dev b c = Inr (c', r) \<and> universe_inv (dmx_data c')"
    using connect_returns [of openable dev b c] inv by auto
  show "universe_inv (dmx_data (fst (auto_connect openable ports b c)))"
    using inv by (simp add: auto_connect_dmx_data)
  show "universe_inv (dmx_data (fst (send_dmx_packet w c)))"
    using inv by (simp add: send_dmx_packet_state)
  show "universe_inv (dmx_data (start_updates c))"
    using inv by (simp add: start_updates_def)
  show "universe_inv (dmx_data (stop c))"
    using inv by (simp add: stop_def Let_def split: option.splits)
qed

theorem universe_invariant_witness:
  "universe_inv (dmx_data fresh)
   \<and> (\<exists>c'. set_channel 3 999 fresh = Inr c' \<and> universe_inv (dmx_data c'))
   \<and> (\<exists>c'. set_channels 510 [1, 2, 3, 4] fresh = Inr c' \<and> universe_inv (dmx_data c'))
   \<and> universe_inv (dmx_data (fst (blackout fresh)))
   \<and> universe_inv (dmx_data (stop fresh))"
proof -
  have inv: "universe_inv (dmx_data fresh)"
    by (simp add: fresh_def universe_inv_zeros)
  show ?thesis
    using inv
      universe_invariant [of "\<lambda>d. False" "[]" None 250000 fresh 3 999 510 "[1, 2, 3, 4]"]
    by blast
qed

section \<open>A failed write\<close>

text \<open>
  C7. \<open>send_dmx_packet\<close> returns the controller exactly as it received it, for every
  outcome of \<open>write\<close>; when \<open>write\<close> raises, the call returns \<open>False\<close>. In the loop, a
  tick whose write raised is followed by the next tick (the flag is still set unless a
  request thread cleared it during the sleep), and that tick hands \<open>write\<close> the packet
  of the universe as it is then, changes made during the sleep included.
\<close>

theorem write_failure_is_confined:
  "fst (send_dmx_packet w c) = c
   \<and> fst (snd (send_dmx_packet WriteRaises c)) = False
   \<and> dmx_data (fst (send_dmx_packet WriteRaises c)) = dmx_data c
   \<and> running (fst (send_dmx_packet WriteRaises c)) = running c
   \<and> serial_port (fst (send_dmx_packet WriteRaises c)) = serial_port c
   \<and> (running c \<and> running (sleep c) \<and> serial_port (sleep c) = Some h
        \<and> universe_inv (dmx_data (sleep c)) \<longrightarrow>
        (\<exists>c2 sent rs.
           update_loop ((WriteRaises, sleep) # (w, sleep2) # ticks) c
             = (c2, (False, sent)
                    # (w = WriteOk,
                       Some ([0x7E, 0x06, 0x01, 0x02, 0x00]
                             @ map word_of_int (dmx_data (sleep c)) @ [0xE7]))
                    # rs)))"
proof (intro conjI impI)
  show "fst (send_dmx_packet w c) = c" by (rule send_dmx_packet_state)
  show "fst (snd (send_dmx_packet WriteRaises c)) = False" by (rule send_dmx_packet_raises)
  show "dmx_data (fst (send_dmx_packet WriteRaises c)) = dmx_data c"
    by (simp add: send_dmx_packet_state)
  show "running (fst (send_dmx_packet WriteRaises c)) = running c"
    by (simp add: send_dmx_packet_state)
  show "serial_port (fst (send_dmx_packet WriteRaises c)) = serial_port c"
    by (simp add: send_dmx_packet_state)
next
  assume a: "running c \<and> running (sleep c) \<and> serial_port (sleep c) = Some h
        \<and> universe_inv (dmx_data (sleep c))"
  obtain sent where s1: "send_dmx_packet WriteRaises c = (c, False, sent)"
    using send_dmx_packet_state [of WriteRaises c] send_dmx_packet_raises [of c]
    by (cases "send_dmx_packet WriteRaises c") auto
  have s2: "send_dmx_packet w (sleep c) =
              (sleep c, w = WriteOk,
               Some ([0x7E, 0x06, 0x01, 0x02, 0x00]
                     @ map word_of_int (dmx_data (sleep c)) @ [0xE7]))"
    using a by (simp add: send_dmx_packet_universe)
  obtain c2 rs where s3: "update_loop ticks (sleep2 (sleep c)) = (c2, rs)"
    by (cases "update_loop ticks (sleep2 (sleep c))") auto
  have "update_loop ((WriteRaises, sleep) # (w, sleep2) # ticks) c
          = (c2, (False, sent)
                 # (w = WriteOk,
                    Some ([0x7E, 0x06, 0x01, 0x02, 0x00]
                          @ map word_of_int (dmx_data (sleep c)) @ [0xE7]))
                 # rs)"
    using a s1 s2 s3 by simp
  then show "\<exists>c2 sent rs.
           update_loop ((WriteRaises, sleep) # (w, sleep2) # ticks) c
             = (c2, (False, sent)
                    # (w = WriteOk,
                       Some ([0x7E, 0x06, 0x01, 0x02, 0x00]
                             @ map word_of_int (dmx_data (sleep c)) @ [0xE7]))
                    # rs)"
    by blast
qed

theorem write_failure_is_confined_witness:
  "running (fresh\<lparr>serial_port := Some \<lparr>port = ''COM3'', baudrate = 250000, is_open = True\<rparr>,
                  running := True\<rparr>)
   \<and> universe_inv (replicate 512 9)
   \<and> (\<exists>c2 sent rs.
         update_loop [(WriteRaises, \<lambda>c. c\<lparr>dmx_data := replicate 512 9\<rparr>), (WriteOk, \<lambda>c. c)]
           (fresh\<lparr>serial_port := Some \<lparr>port = ''COM3'', baudrate = 250000, is_open = True\<rparr>,
                  running := True\<rparr>)
           = (c2, (False, sent)
                  # (True, Some ([0x7E, 0x06, 0x01, 0x02, 0x00] @ replicate 512 0x09 @ [0xE7]))
                  # rs))"
proof -
  have inv: "universe_inv (replicate 512 9)"
    by (simp add: universe_inv_def list_all_iff)
  show ?thesis
    using inv
      write_failure_is_confined
        [of WriteOk
            "fresh\<lparr>serial_port := Some \<lparr>port = ''COM3'', baudrate = 250000, is_open = True\<rparr>,
                   running := True\<rparr>"
            "\<lambda>c. c\<lparr>dmx_data := replicate 512 9\<rparr>"
            "\<lparr>port = ''COM3'', baudrate = 250000, is_open = True\<rparr>"
            "\<lambda>c. c" "[]"]
    by (simp add: fresh_def)
qed

section \<open>Discovery\<close>

text \<open>What \<open>auto_connect\<close> does, for every list of ports.\<close>

lemma auto_connect_no_match:
  assumes "\<not> list_ex matches ports"
  shows "auto_connect openable ports b c = (c, False, [])"
  using assms by (induction ports) simp_all

lemma auto_connect_some_match:
  assumes "list_ex matches ports"
  shows "fst (snd (auto_connect openable ports b c)) = True"
  using assms
proof (induction ports)
  case Nil
  then show ?case by simp
next
  case (Cons p ports)
  from connect_returns [of openable "device p" b c] obtain c' r where
    "connect openable (device p) b c = Inr (c', r)" by blast
  then show ?case using Cons by auto
qed

lemma auto_connect_tried:
  "set (snd (snd (auto_connect openable ports b c))) \<subseteq> device ` {p \<in> set ports. matches p}
   \<and> length (snd (snd (auto_connect openable ports b c))) \<le> 1"
proof (induction ports)
  case Nil
  show ?case by simp
next
  case (Cons p ports)
  from connect_returns [of openable "device p" b c] obtain c' r where
    "connect openable (device p) b c = Inr (c', r)" by blast
  then show ?case using Cons by auto
qed

lemma ftdi_matches:
  "matches \<lparr>device = ''/dev/ttyUSB0'', description = ''FTDI USB Serial''\<rparr>"
  by code_simp

lemma enttec_matches:
  "matches \<lparr>device = ''/dev/ttyUSB1'', description = ''ENTTEC DMX USB PRO''\<rparr>"
  by code_simp

text \<open>
  C6, on the code. Two ports match the keyword list; the first cannot be opened, the
  second can. \<open>auto_connect\<close> calls \<open>connect\<close> on the first only, returns \<open>True\<close>, and
  leaves the controller without a handle, so the status says not connected; a call of
  \<open>connect\<close> on the second port would have connected.
\<close>

theorem auto_connect_true_without_connection:
  "auto_connect (\<lambda>d. d = ''/dev/ttyUSB1'')
     [\<lparr>device = ''/dev/ttyUSB0'', description = ''FTDI USB Serial''\<rparr>,
      \<lparr>device = ''/dev/ttyUSB1'', description = ''ENTTEC DMX USB PRO''\<rparr>] 250000 fresh
     = (fresh, True, [''/dev/ttyUSB0''])
   \<and> get_status (fst (auto_connect (\<lambda>d. d = ''/dev/ttyUSB1'')
         [\<lparr>device = ''/dev/ttyUSB0'', description = ''FTDI USB Serial''\<rparr>,
          \<lparr>device = ''/dev/ttyUSB1'', description = ''ENTTEC DMX USB PRO''\<rparr>] 250000 fresh))
       = \<lparr>st_connected = False, st_port = None, st_running = False\<rparr>
   \<and> connect (\<lambda>d. d = ''/dev/ttyUSB1'') ''/dev/ttyUSB1'' 250000 fresh
       = Inr (fresh\<lparr>serial_port :=
                      Some \<lparr>port = ''/dev/ttyUSB1'', baudrate = 250000, is_open = True\<rparr>,
                    running := True, update_thread := Some 0, threads_started := 1\<rparr>, True)"
  by (simp add: ftdi_matches enttec_matches connect_def Serial_def get_status_def
        start_updates_def fresh_def)

end
